theory Spec2Isabelle
  imports Main "HOL-Library.Word"
begin

text \<open>
  The Atomizer of \<^verbatim>\<open>native-atomizer/src/atomizer.cpp\<close> splits a document into chunks, by one
  of two single-pass algorithms chosen by a strategy label. This theory embeds the two
  splitters, the entry point \<^verbatim>\<open>Atomize\<close> and the N-API wrapper of \<^verbatim>\<open>binding.cpp\<close>, and proves
  the properties that the specification states for them.
\<close>

section \<open>Strings and machine integers\<close>

text \<open>
  A \<^verbatim>\<open>std::string\<close> is a list of bytes. Offsets and lengths into it (\<^verbatim>\<open>size_t\<close> values
  bounded by the length of the buffer) are natural numbers; the subtractions
  \<^verbatim>\<open>i - last_split\<close> and \<^verbatim>\<open>i - back_scan\<close> never go below zero, since \<^verbatim>\<open>last_split \<le> i\<close> and
  \<^verbatim>\<open>back_scan \<le> i\<close> where they are computed. The caller-supplied \<^verbatim>\<open>maxChunkSize\<close> is an
  arbitrary unsigned value of 64 bits, and the thresholds derived from it are computed in
  64-bit arithmetic, where the multiplication wraps around. The bracket depth is a C
  \<^verbatim>\<open>int\<close>: a 32-bit word read in two's complement. Its increment wraps around in the model;
  in C++ an overflowing \<^verbatim>\<open>depth++\<close> is undefined, which takes \<open>2 ^ 31\<close> opening braces.
\<close>

type_synonym size_t = "64 word"
type_synonym c_int = "32 word"

abbreviation NL :: char where
  "NL \<equiv> CHR 0x0A"

text \<open>
  \<^verbatim>\<open>content.substr(pos, n)\<close> and \<^verbatim>\<open>content.substr(pos)\<close>. The library call throws when
  \<^verbatim>\<open>pos > size()\<close>; every call of the splitters has \<^verbatim>\<open>pos \<le> size()\<close> (lemmas
  \<open>code_scan_last_split_le\<close> and \<open>prose_inv_cut\<close> below), so the model keeps the total
  functions.
\<close>

definition substr :: "string \<Rightarrow> nat \<Rightarrow> nat \<Rightarrow> string" where
  "substr s pos n = take n (drop pos s)"

definition substr_from :: "string \<Rightarrow> nat \<Rightarrow> string" where
  "substr_from s pos = drop pos s"

section \<open>The code splitter\<close>

record code_state =
  atoms :: "string list"
  depth :: c_int
  last_split :: nat

text \<open>
  The backward search of the hard-limit branch:
  \<^verbatim>\<open>while (back_scan > last_split && (i - back_scan) < 200)\<close>, returning the offset of the
  newline it stops at, or \<open>None\<close> when the loop ends with \<^verbatim>\<open>found_cut\<close> still false.
\<close>

function back_scan_loop :: "string \<Rightarrow> nat \<Rightarrow> nat \<Rightarrow> nat \<Rightarrow> nat option" where
  "back_scan_loop content ls i back_scan =
     (if back_scan > ls \<and> i - back_scan < 200 then
        (if content ! back_scan = NL then Some back_scan
         else back_scan_loop content ls i (back_scan - 1))
      else None)"
  by pat_completeness auto
termination
  by (relation "measure (\<lambda>(content, ls, i, back_scan). back_scan)") auto

declare back_scan_loop.simps [simp del]

text \<open>The update of the depth counter on the byte \<open>c\<close>; \<^verbatim>\<open>depth > 0\<close> is a signed comparison.\<close>

definition depth_step :: "char \<Rightarrow> c_int \<Rightarrow> c_int" where
  "depth_step c d =
     (if c = CHR ''{'' then d + 1
      else if c = CHR ''}'' then (if 0 <s d then d - 1 else d)
      else d)"

text \<open>One execution of the body of the \<^verbatim>\<open>for\<close> loop of \<^verbatim>\<open>SplitCode\<close>, at index \<open>i\<close>.\<close>

definition code_body :: "string \<Rightarrow> nat \<Rightarrow> nat \<Rightarrow> nat \<Rightarrow> code_state \<Rightarrow> code_state" where
  "code_body content MIN_SIZE MAX_SIZE i st =
     (let c = content ! i;
          d = depth_step c (depth st);
          current_len = i - last_split st;
          is_newline = (c = NL);
          at_zero_depth = (d = 0)
      in if is_newline \<and> at_zero_depth \<and> current_len > MIN_SIZE then
           \<lparr>atoms = atoms st @ [substr content (last_split st) (current_len + 1)],
            depth = d, last_split = i + 1\<rparr>
         else if current_len \<ge> MAX_SIZE then
           (case back_scan_loop content (last_split st) i i of
              Some back_scan \<Rightarrow>
                \<lparr>atoms = atoms st @
                   [substr content (last_split st) ((back_scan - last_split st) + 1)],
                 depth = d, last_split = back_scan + 1\<rparr>
            | None \<Rightarrow>
                \<lparr>atoms = atoms st @ [substr content (last_split st) current_len],
                 depth = d, last_split = i + 1\<rparr>)
         else \<lparr>atoms = atoms st, depth = d, last_split = last_split st\<rparr>)"

text \<open>
  The loop \<^verbatim>\<open>for (size_t i = 0; i < len; ++i)\<close> never changes \<open>i\<close> in its body, so the state
  before iteration \<open>n\<close> is the body run at \<open>0, \<dots>, n - 1\<close> from the initial state.
\<close>

primrec code_scan :: "string \<Rightarrow> nat \<Rightarrow> nat \<Rightarrow> nat \<Rightarrow> code_state" where
  "code_scan content MIN_SIZE MAX_SIZE 0 = \<lparr>atoms = [], depth = 0, last_split = 0\<rparr>"
| "code_scan content MIN_SIZE MAX_SIZE (Suc n) =
     code_body content MIN_SIZE MAX_SIZE n (code_scan content MIN_SIZE MAX_SIZE n)"

definition SplitCode :: "string \<Rightarrow> size_t \<Rightarrow> string list" where
  "SplitCode content maxChunkSize =
     (let len = length content;
          MIN_SIZE = unat (maxChunkSize div 2);
          MAX_SIZE = unat (maxChunkSize * 2);
          st = code_scan content MIN_SIZE MAX_SIZE len
      in if last_split st < len then atoms st @ [substr_from content (last_split st)]
         else atoms st)"

section \<open>The prose splitter\<close>

text \<open>The boundary test of \<^verbatim>\<open>SplitProse\<close> at index \<open>i\<close> (the local \<^verbatim>\<open>is_boundary\<close>).\<close>

definition is_boundary :: "string \<Rightarrow> nat \<Rightarrow> bool" where
  "is_boundary content i =
     (let c = content ! i; len = length content
      in if c = NL then i + 1 < len \<and> content ! (i + 1) = NL
         else if c = CHR ''.'' \<or> c = CHR ''!'' \<or> c = CHR ''?'' then
           i + 1 < len \<and> (content ! (i + 1) = CHR '' '' \<or> content ! (i + 1) = NL)
         else False)"

text \<open>
  The length of a cut triggered at index \<open>i\<close> with run \<open>current_len\<close>: the triggering byte is
  included, and so is a second newline that follows a newline.
\<close>

definition cut_len :: "string \<Rightarrow> nat \<Rightarrow> nat \<Rightarrow> nat" where
  "cut_len content i current_len =
     (if content ! i = NL \<and> i + 1 < length content \<and> content ! (i + 1) = NL
      then current_len + 1 + 1 else current_len + 1)"

text \<open>
  The loop of \<^verbatim>\<open>SplitProse\<close> from index \<open>i\<close>. After a cut the source sets
  \<^verbatim>\<open>i = last_split - 1\<close> and the loop header increments it, so the scan resumes at the new
  \<^verbatim>\<open>last_split\<close>. The result is the final \<^verbatim>\<open>atoms\<close> and \<^verbatim>\<open>last_split\<close>.
\<close>

function prose_loop ::
  "string \<Rightarrow> nat \<Rightarrow> nat \<Rightarrow> nat \<Rightarrow> nat \<Rightarrow> string list \<Rightarrow> string list \<times> nat" where
  "prose_loop content TARGET_SIZE MAX_SIZE i ls acc =
     (if i < length content then
        (let current_len = i - ls
         in if current_len < TARGET_SIZE then
              prose_loop content TARGET_SIZE MAX_SIZE (i + 1) ls acc
            else if is_boundary content i \<or> current_len \<ge> MAX_SIZE then
              (let n = cut_len content i current_len
               in prose_loop content TARGET_SIZE MAX_SIZE ((ls + n - 1) + 1)
                    (ls + n) (acc @ [substr content ls n]))
            else prose_loop content TARGET_SIZE MAX_SIZE (i + 1) ls acc)
      else (acc, ls))"
  by pat_completeness auto
termination
  by (relation "measure (\<lambda>(content, T, M, i, ls, acc). length content - i)")
    (auto simp: cut_len_def)

declare prose_loop.simps [simp del]

definition SplitProse :: "string \<Rightarrow> size_t \<Rightarrow> string list" where
  "SplitProse content maxChunkSize =
     (let len = length content;
          TARGET_SIZE = unat maxChunkSize;
          MAX_SIZE = unat (maxChunkSize * 3);
          (acc, ls) = prose_loop content TARGET_SIZE MAX_SIZE 0 0 []
      in if ls < len then acc @ [substr_from content ls] else acc)"

section \<open>The entry point\<close>

definition Atomize :: "string \<Rightarrow> string \<Rightarrow> size_t \<Rightarrow> string list" where
  "Atomize content strategy maxChunkSize =
     (if strategy = ''code'' then SplitCode content maxChunkSize
      else SplitProse content maxChunkSize)"


text \<open>
  The N-API wrapper \<^verbatim>\<open>AtomizeWrapped\<close> of \<^verbatim>\<open>binding.cpp\<close>. A JavaScript argument is a string,
  a number or something else. JavaScript strings and numbers, and the three N-API calls that
  convert them, are not part of the repository and are parameters of the model:
  \<^verbatim>\<open>Utf8Value()\<close> encodes a JavaScript string as bytes, \<^verbatim>\<open>Int64Value()\<close> reads a number as
  an \<^verbatim>\<open>int64_t\<close>, and \<^verbatim>\<open>Napi::String::New\<close> decodes the bytes of a chunk into a JavaScript
  string. The assignment of the \<^verbatim>\<open>int64_t\<close> to \<^verbatim>\<open>size_t maxChunkSize\<close> keeps the 64 bits. The
  tests \<^verbatim>\<open>info.Length() > k && info[k].IsString()\<close> are the patterns of the \<open>case\<close>
  expressions. The only exception the wrapper throws is the \<^verbatim>\<open>TypeError\<close> for a missing or
  non-string first argument.
\<close>

type_synonym int64_t = "64 word"

datatype ('s, 'n) js_value = JSString 's | JSNumber 'n | JSOther

datatype js_error = TypeError string

definition AtomizeWrapped ::
  "('s \<Rightarrow> string) \<Rightarrow> ('n \<Rightarrow> int64_t) \<Rightarrow> (string \<Rightarrow> 's) \<Rightarrow> ('s, 'n) js_value list
     \<Rightarrow> js_error + 's list" where
  "AtomizeWrapped Utf8Value Int64Value String_New info =
     (case info of
        JSString s # rest \<Rightarrow>
          (let input = Utf8Value s;
               strategy = (case rest of JSString l # _ \<Rightarrow> Utf8Value l | _ \<Rightarrow> ''prose'');
               maxChunkSize = (case rest of _ # JSNumber n # _ \<Rightarrow> Int64Value n | _ \<Rightarrow> 512);
               atoms = Atomize input strategy maxChunkSize
           in Inr (map String_New atoms))
      | _ \<Rightarrow> Inl (TypeError ''String expected''))"

section \<open>Observing the prose splitter\<close>

text \<open>
  The cuts of the prose splitter's loop, in order: for each execution of the block of lines
  105--113, the value of \<^verbatim>\<open>last_split\<close> before it, the index \<open>i\<close> that triggered it, the chunk
  it appends and the value of \<^verbatim>\<open>last_split\<close> after it. The recursion is that of
  \<open>prose_loop\<close>.
\<close>

record cut_event =
  cut_start :: nat
  cut_at :: nat
  cut_chunk :: string
  cut_next :: nat

function prose_cuts :: "string \<Rightarrow> nat \<Rightarrow> nat \<Rightarrow> nat \<Rightarrow> nat \<Rightarrow> cut_event list" where
  "prose_cuts content TARGET_SIZE MAX_SIZE i ls =
     (if i < length content then
        (let current_len = i - ls
         in if current_len < TARGET_SIZE then
              prose_cuts content TARGET_SIZE MAX_SIZE (i + 1) ls
            else if is_boundary content i \<or> current_len \<ge> MAX_SIZE then
              (let n = cut_len content i current_len
               in \<lparr>cut_start = ls, cut_at = i, cut_chunk = substr content ls n,
                   cut_next = ls + n\<rparr>
                  # prose_cuts content TARGET_SIZE MAX_SIZE ((ls + n - 1) + 1) (ls + n))
            else prose_cuts content TARGET_SIZE MAX_SIZE (i + 1) ls)
      else [])"
  by pat_completeness auto
termination
  by (relation "measure (\<lambda>(content, T, M, i, ls). length content - i)")
    (auto simp: cut_len_def)

declare prose_cuts.simps [simp del]

text \<open>The value of \<^verbatim>\<open>last_split\<close> after the cuts \<open>es\<close>, starting from \<open>ls\<close>.\<close>

definition last_split_after :: "nat \<Rightarrow> cut_event list \<Rightarrow> nat" where
  "last_split_after ls es = (if es = [] then ls else cut_next (last es))"

section \<open>Notions of the specification\<close>

text \<open>
  The bracket depth as the specification words it: the running count of \<open>{\<close> minus \<open>}\<close>,
  floored at zero, as a natural number.
\<close>

definition bracket_depth :: "string \<Rightarrow> nat" where
  "bracket_depth s =
     foldl (\<lambda>d c. if c = CHR ''{'' then d + 1 else if c = CHR ''}'' then d - 1 else d) 0 s"

text \<open>
  A chunk that ends at offset \<open>e\<close> of the document ends immediately after a sentence boundary
  when its last byte is one of \<open>. ! ?\<close> and the next byte of the document is a space or a
  newline; it ends immediately after a paragraph boundary when its last two bytes are
  newlines.
\<close>

definition sentence_end_at :: "string \<Rightarrow> nat \<Rightarrow> bool" where
  "sentence_end_at content e \<longleftrightarrow>
     1 \<le> e \<and> e < length content \<and>
     (content ! (e - 1) = CHR ''.'' \<or> content ! (e - 1) = CHR ''!'' \<or> content ! (e - 1) = CHR ''?'') \<and>
     (content ! e = CHR '' '' \<or> content ! e = NL)"

definition paragraph_end_at :: "string \<Rightarrow> nat \<Rightarrow> bool" where
  "paragraph_end_at content e \<longleftrightarrow>
     2 \<le> e \<and> e \<le> length content \<and> content ! (e - 2) = NL \<and> content ! (e - 1) = NL"

section \<open>Loop invariants\<close>

text \<open>
  The invariant of the code splitter's loop before iteration \<open>n\<close>: the run is at most the
  hard limit, and every chunk emitted so far is at most one byte longer than the hard
  limit and, when the hard limit is positive, not empty.
\<close>

definition code_inv :: "nat \<Rightarrow> nat \<Rightarrow> code_state \<Rightarrow> bool" where
  "code_inv MAX_SIZE n st \<longleftrightarrow>
     last_split st \<le> n \<and> n - last_split st \<le> MAX_SIZE \<and>
     (\<forall>a\<in>set (atoms st). length a \<le> MAX_SIZE + 1 \<and> (0 < MAX_SIZE \<longrightarrow> a \<noteq> []))"

text \<open>
  The invariant of the prose splitter's loop at index \<open>i\<close>: the chunks so far are the
  document up to \<^verbatim>\<open>last_split\<close>, none is empty, and runs and chunks are bounded by the
  larger of the two thresholds.
\<close>

definition prose_inv :: "string \<Rightarrow> nat \<Rightarrow> nat \<Rightarrow> nat \<Rightarrow> nat \<Rightarrow> string list \<Rightarrow> bool" where
  "prose_inv content T M i ls acc \<longleftrightarrow>
     ls \<le> i \<and> i \<le> length content \<and> i - ls \<le> max T M \<and>
     concat acc = take ls content \<and>
     (\<forall>a\<in>set acc. a \<noteq> [] \<and> length a \<le> max T M + 2) \<and>
     (acc \<noteq> [] \<or> ls = 0)"

section \<open>Substrings\<close>

lemma length_substr_le: "length (substr content ls n) \<le> n"
  by (simp add: substr_def)

lemma length_substr: "ls + n \<le> length content \<Longrightarrow> length (substr content ls n) = n"
  by (simp add: substr_def)

lemma substr_nonempty: "ls < length content \<Longrightarrow> 0 < n \<Longrightarrow> substr content ls n \<noteq> []"
  by (simp add: substr_def)

lemma take_substr:
  "concat acc = take ls content \<Longrightarrow> concat (acc @ [substr content ls n]) = take (ls + n) content"
  by (simp add: substr_def take_add)

lemma unat_times_le: "unat (w * k) \<le> unat w * unat k" for w k :: size_t
  by (simp add: unat_word_ariths)

section \<open>The code splitter: invariants\<close>

lemma back_scan_loop_Some:
  "back_scan_loop content ls i b = Some k \<Longrightarrow> ls < k \<and> k \<le> b \<and> content ! k = NL"
proof (induction content ls i b rule: back_scan_loop.induct)
  case (1 content ls i b)
  show ?case
  proof (cases "b > ls \<and> i - b < 200")
    case True
    show ?thesis
    proof (cases "content ! b = NL")
      case True
      with \<open>b > ls \<and> i - b < 200\<close> "1.prems" show ?thesis
        by (simp add: back_scan_loop.simps [of content ls i b])
    next
      case False
      with \<open>b > ls \<and> i - b < 200\<close> "1.prems"
      have "back_scan_loop content ls i (b - 1) = Some k"
        by (simp add: back_scan_loop.simps [of content ls i b])
      with "1.IH" True False have "ls < k \<and> k \<le> b - 1 \<and> content ! k = NL"
        by blast
      then show ?thesis by auto
    qed
  next
    case False
    with "1.prems" show ?thesis
      by (simp add: back_scan_loop.simps [of content ls i b])
  qed
qed

lemma code_body_depth:
  "depth (code_body content MIN_SIZE MAX_SIZE i st) = depth_step (content ! i) (depth st)"
  by (simp add: code_body_def Let_def split: option.splits)

lemma code_body_last_split:
  assumes "last_split st \<le> i"
  shows "last_split (code_body content MIN_SIZE MAX_SIZE i st) \<le> Suc i"
  using assms
  by (auto simp: code_body_def Let_def split: option.splits dest!: back_scan_loop_Some)

lemma code_scan_last_split_le:
  "last_split (code_scan content MIN_SIZE MAX_SIZE n) \<le> n"
proof (induction n)
  case 0
  show ?case by simp
next
  case (Suc n)
  then show ?case by (simp add: code_body_last_split)
qed

lemma code_body_atoms_or_same:
  "atoms (code_body content MIN_SIZE MAX_SIZE i st) \<noteq> []
     \<or> last_split (code_body content MIN_SIZE MAX_SIZE i st) = last_split st"
  by (simp add: code_body_def Let_def split: option.splits)

lemma code_scan_atoms_or_zero:
  "atoms (code_scan content MIN_SIZE MAX_SIZE n) \<noteq> []
     \<or> last_split (code_scan content MIN_SIZE MAX_SIZE n) = 0"
proof (induction n)
  case 0
  show ?case by simp
next
  case (Suc n)
  show ?case
  proof (cases "atoms (code_scan content MIN_SIZE MAX_SIZE n) = []")
    case True
    with Suc have "last_split (code_scan content MIN_SIZE MAX_SIZE n) = 0" by simp
    with code_body_atoms_or_same [of content MIN_SIZE MAX_SIZE n "code_scan content MIN_SIZE MAX_SIZE n"]
    show ?thesis by auto
  next
    case False
    then show ?thesis
      by (simp add: code_body_def Let_def split: option.splits)
  qed
qed

lemma SplitCode_Nil: "SplitCode [] maxChunkSize = []"
  by (simp add: SplitCode_def)

lemma SplitCode_nonempty:
  assumes "content \<noteq> []"
  shows "SplitCode content maxChunkSize \<noteq> []"
proof -
  let ?st = "code_scan content (unat (maxChunkSize div 2)) (unat (maxChunkSize * 2)) (length content)"
  from code_scan_atoms_or_zero [of content _ _ "length content"]
  have "atoms ?st \<noteq> [] \<or> last_split ?st = 0" .
  with assms show ?thesis
    by (auto simp: SplitCode_def Let_def)
qed

lemma code_inv_body:
  assumes "code_inv MAX_SIZE n st" "n < length content"
  shows "code_inv MAX_SIZE (Suc n) (code_body content MIN_SIZE MAX_SIZE n st)"
proof -
  from assms have ls: "last_split st \<le> n" and run: "n - last_split st \<le> MAX_SIZE"
    and old: "\<forall>a\<in>set (atoms st). length a \<le> MAX_SIZE + 1 \<and> (0 < MAX_SIZE \<longrightarrow> a \<noteq> [])"
    by (simp_all add: code_inv_def)
  from ls assms(2) have inside: "last_split st < length content"
    by simp
  let ?c = "content ! n" and ?d = "depth_step (content ! n) (depth st)"
  show ?thesis
  proof (cases "?c = NL \<and> ?d = 0 \<and> n - last_split st > MIN_SIZE")
    case True
    then have "code_body content MIN_SIZE MAX_SIZE n st =
        \<lparr>atoms = atoms st @ [substr content (last_split st) (n - last_split st + 1)],
         depth = ?d, last_split = n + 1\<rparr>"
      by (auto simp: code_body_def Let_def)
    moreover have "length (substr content (last_split st) (n - last_split st + 1)) \<le> MAX_SIZE + 1"
      using length_substr_le [of content "last_split st" "n - last_split st + 1"] run by simp
    moreover have "substr content (last_split st) (n - last_split st + 1) \<noteq> []"
      using inside by (simp add: substr_nonempty)
    ultimately show ?thesis
      using old by (simp add: code_inv_def)
  next
    case nosoft: False
    show ?thesis
    proof (cases "n - last_split st \<ge> MAX_SIZE")
      case False
      with nosoft have "code_body content MIN_SIZE MAX_SIZE n st =
          \<lparr>atoms = atoms st, depth = ?d, last_split = last_split st\<rparr>"
        by (auto simp: code_body_def Let_def)
      with False ls old show ?thesis
        by (simp add: code_inv_def)
    next
      case hard: True
      show ?thesis
      proof (cases "back_scan_loop content (last_split st) n n")
        case None
        with nosoft hard have "code_body content MIN_SIZE MAX_SIZE n st =
            \<lparr>atoms = atoms st @ [substr content (last_split st) (n - last_split st)],
             depth = ?d, last_split = n + 1\<rparr>"
          by (auto simp: code_body_def Let_def)
        moreover have "length (substr content (last_split st) (n - last_split st)) \<le> MAX_SIZE + 1"
          using length_substr_le [of content "last_split st" "n - last_split st"] run by simp
        moreover have "0 < MAX_SIZE \<longrightarrow> substr content (last_split st) (n - last_split st) \<noteq> []"
          using inside hard by (simp add: substr_nonempty)
        ultimately show ?thesis
          using old by (simp add: code_inv_def)
      next
        case (Some k)
        then have k: "last_split st < k" "k \<le> n"
          by (auto dest: back_scan_loop_Some)
        from Some nosoft hard have "code_body content MIN_SIZE MAX_SIZE n st =
            \<lparr>atoms = atoms st @ [substr content (last_split st) (k - last_split st + 1)],
             depth = ?d, last_split = k + 1\<rparr>"
          by (auto simp: code_body_def Let_def)
        moreover have "length (substr content (last_split st) (k - last_split st + 1)) \<le> MAX_SIZE + 1"
          using length_substr_le [of content "last_split st" "k - last_split st + 1"] run k by simp
        moreover have "substr content (last_split st) (k - last_split st + 1) \<noteq> []"
          using inside by (simp add: substr_nonempty)
        ultimately show ?thesis
          using old k run by (auto simp: code_inv_def)
      qed
    qed
  qed
qed

lemma code_scan_inv:
  "n \<le> length content \<Longrightarrow> code_inv MAX_SIZE n (code_scan content MIN_SIZE MAX_SIZE n)"
proof (induction n)
  case 0
  show ?case by (simp add: code_inv_def)
next
  case (Suc n)
  then show ?case by (simp add: code_inv_body)
qed

lemma SplitCode_chunks:
  assumes "a \<in> set (SplitCode content maxChunkSize)"
  shows "length a \<le> unat (maxChunkSize * 2) + 1"
    and "0 < unat (maxChunkSize * 2) \<Longrightarrow> a \<noteq> []"
proof -
  let ?st = "code_scan content (unat (maxChunkSize div 2)) (unat (maxChunkSize * 2)) (length content)"
  have inv: "code_inv (unat (maxChunkSize * 2)) (length content) ?st"
    by (rule code_scan_inv) simp
  from inv assms show "length a \<le> unat (maxChunkSize * 2) + 1"
    by (auto simp: SplitCode_def Let_def code_inv_def substr_from_def split: if_splits)
  from inv assms show "a \<noteq> []" if "0 < unat (maxChunkSize * 2)"
    using that by (auto simp: SplitCode_def Let_def code_inv_def substr_from_def split: if_splits)
qed

section \<open>The prose splitter: invariants\<close>

lemma cut_len_ge: "current_len + 1 \<le> cut_len content i current_len"
  by (simp add: cut_len_def)

lemma cut_len_le: "cut_len content i current_len \<le> current_len + 2"
  by (simp add: cut_len_def)

lemma cut_len_bound:
  "i < length content \<Longrightarrow> ls \<le> i \<Longrightarrow> ls + cut_len content i (i - ls) \<le> length content"
  by (auto simp: cut_len_def)

lemma prose_loop_end:
  "\<not> i < length content \<Longrightarrow> prose_loop content T M i ls acc = (acc, ls)"
  by (simp add: prose_loop.simps [of content T M i ls acc])

lemma prose_loop_next:
  "i < length content \<Longrightarrow> i - ls < T \<or> (\<not> is_boundary content i \<and> i - ls < M) \<Longrightarrow>
   prose_loop content T M i ls acc = prose_loop content T M (Suc i) ls acc"
  by (auto simp: prose_loop.simps [of content T M i ls acc] Let_def)

lemma prose_loop_cut:
  "i < length content \<Longrightarrow> T \<le> i - ls \<Longrightarrow> is_boundary content i \<or> M \<le> i - ls \<Longrightarrow>
   prose_loop content T M i ls acc =
     prose_loop content T M (ls + cut_len content i (i - ls)) (ls + cut_len content i (i - ls))
       (acc @ [substr content ls (cut_len content i (i - ls))])"
  using cut_len_ge [of "i - ls" content i]
  by (auto simp: prose_loop.simps [of content T M i ls acc] Let_def)

lemma prose_loop_rule:
  assumes init: "P i ls acc"
    and next_step: "\<And>i ls acc. P i ls acc \<Longrightarrow> i < length content \<Longrightarrow>
           i - ls < T \<or> (\<not> is_boundary content i \<and> i - ls < M) \<Longrightarrow> P (Suc i) ls acc"
    and cut_step: "\<And>i ls acc. P i ls acc \<Longrightarrow> i < length content \<Longrightarrow> T \<le> i - ls \<Longrightarrow>
           is_boundary content i \<or> M \<le> i - ls \<Longrightarrow>
           P (ls + cut_len content i (i - ls)) (ls + cut_len content i (i - ls))
             (acc @ [substr content ls (cut_len content i (i - ls))])"
  shows "\<exists>j. length content \<le> j \<and>
           P j (snd (prose_loop content T M i ls acc)) (fst (prose_loop content T M i ls acc))"
  using init next_step cut_step
proof (induction content T M i ls acc rule: prose_loop.induct)
  case (1 content T M i ls acc)
  note P = "1.prems"(1) and nxt = "1.prems"(2) and cut = "1.prems"(3)
  show ?case
  proof (cases "i < length content")
    case False
    with P show ?thesis
      by (auto simp: prose_loop_end intro!: exI [of _ i])
  next
    case inside: True
    show ?thesis
    proof (cases "i - ls < T")
      case True
      then have "P (Suc i) ls acc"
        by (intro nxt [OF P inside]) simp
      then have "\<exists>j\<ge>length content.
          P j (snd (prose_loop content T M (i + 1) ls acc))
            (fst (prose_loop content T M (i + 1) ls acc))"
        by (intro "1.IH"(1) [OF inside refl True _ nxt cut]) simp_all
      then show ?thesis
        using inside True by (simp add: prose_loop_next)
    next
      case big: False
      show ?thesis
      proof (cases "is_boundary content i \<or> M \<le> i - ls")
        case True
        let ?n = "cut_len content i (i - ls)"
        from big True have "P (ls + ?n) (ls + ?n) (acc @ [substr content ls ?n])"
          by (intro cut [OF P inside]) simp_all
        moreover have "ls + ?n - 1 + 1 = ls + ?n"
          using cut_len_ge [of "i - ls" content i] by simp
        ultimately have "\<exists>j\<ge>length content.
          P j (snd (prose_loop content T M (ls + ?n - 1 + 1) (ls + ?n)
                 (acc @ [substr content ls ?n])))
            (fst (prose_loop content T M (ls + ?n - 1 + 1) (ls + ?n)
                 (acc @ [substr content ls ?n])))"
          by (intro "1.IH"(2) [OF inside refl big True refl _ nxt cut]) simp_all
        then show ?thesis
          using inside big True \<open>ls + ?n - 1 + 1 = ls + ?n\<close> by (simp add: prose_loop_cut)
      next
        case False
        with big have "P (Suc i) ls acc"
          by (intro nxt [OF P inside]) simp
        then have "\<exists>j\<ge>length content.
            P j (snd (prose_loop content T M (i + 1) ls acc))
              (fst (prose_loop content T M (i + 1) ls acc))"
          by (intro "1.IH"(3) [OF inside refl big False _ nxt cut]) simp_all
        then show ?thesis
          using inside big False by (simp add: prose_loop_next)
      qed
    qed
  qed
qed

lemma prose_inv_init: "prose_inv content T M 0 0 []"
  by (simp add: prose_inv_def)

lemma prose_inv_next:
  assumes "prose_inv content T M i ls acc" "i < length content"
    and "i - ls < T \<or> (\<not> is_boundary content i \<and> i - ls < M)"
  shows "prose_inv content T M (Suc i) ls acc"
  using assms unfolding prose_inv_def by auto

lemma prose_inv_cut:
  assumes "prose_inv content T M i ls acc" "i < length content"
  shows "prose_inv content T M (ls + cut_len content i (i - ls)) (ls + cut_len content i (i - ls))
           (acc @ [substr content ls (cut_len content i (i - ls))])"
proof -
  let ?n = "cut_len content i (i - ls)"
  from assms have ls: "ls \<le> i" and run: "i - ls \<le> max T M"
    and cat: "concat acc = take ls content"
    and old: "\<forall>a\<in>set acc. a \<noteq> [] \<and> length a \<le> max T M + 2"
    by (simp_all add: prose_inv_def)
  from ls assms(2) have fit: "ls + ?n \<le> length content"
    by (rule cut_len_bound [rotated])
  then have len: "length (substr content ls ?n) = ?n"
    by (rule length_substr)
  have pos: "0 < ?n" and small: "?n \<le> max T M + 2"
    using cut_len_ge [of "i - ls" content i] cut_len_le [of content i "i - ls"] run by simp_all
  from pos len have ne: "substr content ls ?n \<noteq> []"
    by auto
  show ?thesis
    unfolding prose_inv_def
    using fit len small ne old take_substr [OF cat, of ?n] by auto
qed

lemma prose_loop_inv:
  "\<exists>j. length content \<le> j \<and>
     prose_inv content T M j (snd (prose_loop content T M 0 0 [])) (fst (prose_loop content T M 0 0 []))"
  by (rule prose_loop_rule [where P = "prose_inv content T M"])
    (simp_all add: prose_inv_init prose_inv_next prose_inv_cut)

lemma prose_loop_final:
  obtains acc ls where "prose_loop content T M 0 0 [] = (acc, ls)"
    and "ls \<le> length content" and "length content - ls \<le> max T M"
    and "concat acc = take ls content"
    and "\<forall>a\<in>set acc. a \<noteq> [] \<and> length a \<le> max T M + 2"
    and "acc \<noteq> [] \<or> ls = 0"
proof -
  from prose_loop_inv [of content T M] obtain j where j: "length content \<le> j"
    and inv: "prose_inv content T M j (snd (prose_loop content T M 0 0 [])) (fst (prose_loop content T M 0 0 []))"
    by blast
  from j inv have "j = length content"
    by (simp add: prose_inv_def)
  with inv show thesis
    by (intro that [of "fst (prose_loop content T M 0 0 [])" "snd (prose_loop content T M 0 0 [])"])
      (simp_all add: prose_inv_def)
qed

lemma SplitProse_concat: "concat (SplitProse content maxChunkSize) = content"
proof -
  obtain acc ls where "prose_loop content (unat maxChunkSize) (unat (maxChunkSize * 3)) 0 0 [] = (acc, ls)"
    and "ls \<le> length content" and "concat acc = take ls content"
    by (rule prose_loop_final)
  then show ?thesis
    by (auto simp: SplitProse_def substr_from_def)
qed

lemma SplitProse_chunks:
  assumes "a \<in> set (SplitProse content maxChunkSize)"
  shows "a \<noteq> []" and "length a \<le> max (unat maxChunkSize) (unat (maxChunkSize * 3)) + 2"
proof -
  obtain acc ls where "prose_loop content (unat maxChunkSize) (unat (maxChunkSize * 3)) 0 0 [] = (acc, ls)"
    and "ls \<le> length content"
    and "length content - ls \<le> max (unat maxChunkSize) (unat (maxChunkSize * 3))"
    and "\<forall>a\<in>set acc. a \<noteq> [] \<and> length a \<le> max (unat maxChunkSize) (unat (maxChunkSize * 3)) + 2"
    by (rule prose_loop_final)
  with assms show "a \<noteq> []" and "length a \<le> max (unat maxChunkSize) (unat (maxChunkSize * 3)) + 2"
    by (auto simp: SplitProse_def substr_from_def split: if_splits)
qed

lemma SplitProse_Nil: "SplitProse [] maxChunkSize = []"
  by (simp add: SplitProse_def prose_loop_end)

lemma SplitProse_nonempty:
  assumes "content \<noteq> []"
  shows "SplitProse content maxChunkSize \<noteq> []"
proof -
  obtain acc ls where "prose_loop content (unat maxChunkSize) (unat (maxChunkSize * 3)) 0 0 [] = (acc, ls)"
    and "acc \<noteq> [] \<or> ls = 0"
    by (rule prose_loop_final)
  with assms show ?thesis
    by (auto simp: SplitProse_def)
qed


section \<open>Evaluations and arithmetic of the size type\<close>

lemma eval_code_abc: "Atomize ''abc'' ''code'' 1 = [''ab'']"
  by code_simp

lemma eval_code_ab_nl: "Atomize ''ab\<newline>'' ''code'' 1 = [''ab\<newline>'']"
  by code_simp

lemma eval_prose_abc_nl_nl: "Atomize ''abc\<newline>\<newline>'' ''prose'' 1 = [''abc\<newline>\<newline>'']"
  by code_simp

lemma unat_limit_wraps: "unat ((2 ^ 63 :: size_t) * 2) = 0"
  by simp

lemma unat_limit_half: "unat ((2 ^ 63 :: size_t) div 2) = 2 ^ 62"
  by (simp add: unat_div)

lemma eval_code_a_wrapped: "Atomize ''a'' ''code'' (2 ^ 63) = [[]]"
  unfolding Atomize_def SplitCode_def unat_limit_wraps unat_limit_half
  by (simp add: code_body_def depth_step_def back_scan_loop.simps substr_def substr_from_def Let_def)

lemma double_eq_0_iff: "ts * 2 = 0 \<longleftrightarrow> ts = 0 \<or> ts = 2 ^ 63" for ts :: size_t
proof
  assume "ts * 2 = 0"
  then have "unat (ts * 2) = 0" by simp
  then have "(unat ts * 2) mod 2 ^ 64 = 0"
    by (simp add: unat_word_ariths)
  moreover have "unat ts < 2 ^ 64"
    using unsigned_less [of ts, where 'a = nat] by simp
  ultimately have "unat ts = 0 \<or> unat ts = 2 ^ 63"
  proof -
    assume "unat ts * 2 mod 2 ^ 64 = 0" and small: "unat ts < 2 ^ 64"
    then have "(2 :: nat) ^ 64 dvd unat ts * 2"
      by (simp add: mod_eq_0_iff_dvd)
    then obtain k where "unat ts * 2 = 2 ^ 64 * k"
      by (auto simp: dvd_def)
    then have k: "unat ts = 2 ^ 63 * k"
      by simp
    with small have "k < 2"
      by simp
    then have "k = 0 \<or> k = 1"
      by auto
    with k show ?thesis
      by auto
  qed
  then have "unat ts = unat (0 :: size_t) \<or> unat ts = unat (2 ^ 63 :: size_t)"
    by simp
  then show "ts = 0 \<or> ts = 2 ^ 63"
    by (simp only: word_unat_eq_iff [symmetric])
next
  assume "ts = 0 \<or> ts = 2 ^ 63"
  then show "ts * 2 = 0" by auto
qed

lemma Atomize_chunks_bounded:
  assumes "a \<in> set (Atomize content strategy ts)"
  shows "length a \<le> (if strategy = ''code'' then unat ts * 2 + 1 else unat ts * 3 + 2)"
proof (cases "strategy = ''code''")
  case True
  with assms have "a \<in> set (SplitCode content ts)"
    by (simp add: Atomize_def)
  then have "length a \<le> unat (ts * 2) + 1"
    by (rule SplitCode_chunks(1))
  also have "\<dots> \<le> unat ts * 2 + 1"
    using unat_times_le [of ts 2] by simp
  finally show ?thesis
    using True by simp
next
  case False
  with assms have "a \<in> set (SplitProse content ts)"
    by (simp add: Atomize_def)
  then have "length a \<le> max (unat ts) (unat (ts * 3)) + 2"
    by (rule SplitProse_chunks(2))
  also have "\<dots> \<le> unat ts * 3 + 2"
    using unat_times_le [of ts 3] by simp
  finally show ?thesis
    using False by simp
qed

section \<open>The depth counter\<close>

lemma bracket_depth_snoc:
  "bracket_depth (s @ [c]) =
     (if c = CHR ''{'' then bracket_depth s + 1
      else if c = CHR ''}'' then bracket_depth s - 1 else bracket_depth s)"
  by (simp add: bracket_depth_def)

lemma bracket_depth_le: "bracket_depth s \<le> length s"
proof (induction s rule: rev_induct)
  case Nil
  show ?case by (simp add: bracket_depth_def)
next
  case (snoc c s)
  then show ?case by (auto simp: bracket_depth_snoc)
qed

lemma sint_succ:
  fixes d :: c_int
  assumes "sint d < 2 ^ 31 - 1"
  shows "sint (d + 1) = sint d + 1"
proof -
  have "- (2 ^ 31) \<le> sint d"
    using sint_greater_eq [of d] by simp
  with assms have "signed_take_bit 31 (sint d + 1) = sint d + 1"
    by (intro signed_take_bit_int_eq_self) simp_all
  then show ?thesis
    by (simp add: sint_word_ariths)
qed

lemma sint_pred:
  fixes d :: c_int
  assumes "0 < sint d"
  shows "sint (d - 1) = sint d - 1"
proof -
  have "sint d < 2 ^ 31"
    using sint_less [of d] by simp
  with assms have "signed_take_bit 31 (sint d - 1) = sint d - 1"
    by (intro signed_take_bit_int_eq_self) simp_all
  then show ?thesis
    by (simp add: sint_word_ariths)
qed

lemma depth_step_sint:
  assumes "sint d = int k" and "k < 2 ^ 31 - 1"
  shows "sint (depth_step c d) =
     int (if c = CHR ''{'' then k + 1 else if c = CHR ''}'' then k - 1 else k)"
proof (cases "c = CHR ''{''")
  case True
  from assms have "sint d < 2 ^ 31 - 1"
    by simp
  with True assms(1) show ?thesis
    by (simp add: depth_step_def sint_succ)
next
  case open_: False
  show ?thesis
  proof (cases "c = CHR ''}'' \<and> 0 < k")
    case True
    with assms(1) have "0 < sint d"
      by simp
    with True open_ assms(1) show ?thesis
      by (simp add: depth_step_def word_sless_alt sint_pred)
  next
    case False
    with open_ assms(1) show ?thesis
      by (auto simp: depth_step_def word_sless_alt)
  qed
qed

lemma code_scan_depth:
  assumes "length content < 2 ^ 31" and "n \<le> length content"
  shows "sint (depth (code_scan content MIN_SIZE MAX_SIZE n)) = int (bracket_depth (take n content))"
  using assms(2)
proof (induction n)
  case 0
  show ?case by (simp add: bracket_depth_def)
next
  case (Suc n)
  then have IH: "sint (depth (code_scan content MIN_SIZE MAX_SIZE n)) = int (bracket_depth (take n content))"
    and n: "n < length content"
    by simp_all
  have "bracket_depth (take n content) \<le> n"
    using bracket_depth_le [of "take n content"] by simp
  with n assms(1) have small: "bracket_depth (take n content) < 2 ^ 31 - 1"
    by simp
  have "take (Suc n) content = take n content @ [content ! n]"
    using n by (simp add: take_Suc_conv_app_nth)
  then show ?case
    using depth_step_sint [OF IH small, of "content ! n"]
    by (simp add: code_body_depth bracket_depth_snoc)
qed

section \<open>The soft split\<close>

lemma code_body_soft:
  assumes "content ! i = NL" and "depth_step (content ! i) (depth st) = 0"
    and "MIN_SIZE < i - last_split st"
  shows "code_body content MIN_SIZE MAX_SIZE i st =
     \<lparr>atoms = atoms st @ [substr content (last_split st) (i - last_split st + 1)],
      depth = 0, last_split = i + 1\<rparr>"
  using assms by (auto simp: code_body_def Let_def)

lemma substr_slice:
  assumes "ls \<le> i" and "i < length content"
  shows "length (substr content ls (i - ls + 1)) = i - ls + 1"
    and "last (substr content ls (i - ls + 1)) = content ! i"
proof -
  from assms show len: "length (substr content ls (i - ls + 1)) = i - ls + 1"
    by (simp add: substr_def)
  then have "substr content ls (i - ls + 1) \<noteq> []"
    by auto
  then have "last (substr content ls (i - ls + 1)) = substr content ls (i - ls + 1) ! (i - ls)"
    using len by (simp add: last_conv_nth)
  also have "\<dots> = content ! i"
    using assms by (simp add: substr_def)
  finally show "last (substr content ls (i - ls + 1)) = content ! i" .
qed

lemma code_body_quiet:
  assumes "\<not> (content ! i = NL \<and> depth_step (content ! i) (depth st) = 0 \<and> MIN_SIZE < i - last_split st)"
    and "i - last_split st < MAX_SIZE"
  shows "code_body content MIN_SIZE MAX_SIZE i st =
     \<lparr>atoms = atoms st, depth = depth_step (content ! i) (depth st), last_split = last_split st\<rparr>"
  using assms by (auto simp: code_body_def Let_def)

lemma eval_scan_before:
  "code_scan ''{}\<newline>'' (unat ((1 :: size_t) div 2)) (unat ((1 :: size_t) * 2)) 2
     = \<lparr>atoms = [], depth = 0, last_split = 0\<rparr>"
  "code_scan ''{}\<newline>'' (unat ((2 :: size_t) div 2)) (unat ((2 :: size_t) * 2)) 2
     = \<lparr>atoms = [], depth = 0, last_split = 0\<rparr>"
  by code_simp+

lemma eval_scan_after:
  "code_scan ''{}\<newline>'' (unat ((1 :: size_t) div 2)) (unat ((1 :: size_t) * 2)) (Suc 2)
     = \<lparr>atoms = [''{}\<newline>''], depth = 0, last_split = 3\<rparr>"
  "code_scan ''{}\<newline>'' (unat ((2 :: size_t) div 2)) (unat ((2 :: size_t) * 2)) (Suc 2)
     = \<lparr>atoms = [''{}\<newline>''], depth = 0, last_split = 3\<rparr>"
  by code_simp+

section \<open>The cuts of the prose splitter\<close>

lemma prose_cuts_end:
  "\<not> i < length content \<Longrightarrow> prose_cuts content T M i ls = []"
  by (simp add: prose_cuts.simps [of content T M i ls])

lemma prose_cuts_next:
  "i < length content \<Longrightarrow> i - ls < T \<or> (\<not> is_boundary content i \<and> i - ls < M) \<Longrightarrow>
   prose_cuts content T M i ls = prose_cuts content T M (Suc i) ls"
  by (auto simp: prose_cuts.simps [of content T M i ls] Let_def)

lemma prose_cuts_cut:
  "i < length content \<Longrightarrow> T \<le> i - ls \<Longrightarrow> is_boundary content i \<or> M \<le> i - ls \<Longrightarrow>
   prose_cuts content T M i ls =
     \<lparr>cut_start = ls, cut_at = i, cut_chunk = substr content ls (cut_len content i (i - ls)),
      cut_next = ls + cut_len content i (i - ls)\<rparr>
     # prose_cuts content T M (ls + cut_len content i (i - ls)) (ls + cut_len content i (i - ls))"
  using cut_len_ge [of "i - ls" content i]
  by (auto simp: prose_cuts.simps [of content T M i ls] Let_def)

text \<open>The recursion of the loop as an induction rule with the three ways an iteration goes.\<close>

lemma prose_scan_induct [case_names finished advance cut]:
  assumes fin: "\<And>i ls. \<not> i < length content \<Longrightarrow> P i ls"
    and nxt: "\<And>i ls. i < length content \<Longrightarrow>
           i - ls < T \<or> (\<not> is_boundary content i \<and> i - ls < M) \<Longrightarrow> P (Suc i) ls \<Longrightarrow> P i ls"
    and cut: "\<And>i ls. i < length content \<Longrightarrow> T \<le> i - ls \<Longrightarrow>
           is_boundary content i \<or> M \<le> i - ls \<Longrightarrow>
           P (ls + cut_len content i (i - ls)) (ls + cut_len content i (i - ls)) \<Longrightarrow> P i ls"
  shows "P i ls"
  using fin nxt cut
proof (induction content T M i ls rule: prose_cuts.induct)
  case (1 content T M i ls)
  note fin = "1.prems"(1) and nxt = "1.prems"(2) and cut = "1.prems"(3)
  show ?case
  proof (cases "i < length content")
    case False
    then show ?thesis by (rule fin)
  next
    case inside: True
    show ?thesis
    proof (cases "i - ls < T")
      case True
      have "P (i + 1) ls"
        by (rule "1.IH"(1) [OF inside refl True fin nxt cut])
      then have step: "P (Suc i) ls"
        by simp
      show ?thesis
        by (rule nxt [OF inside _ step]) (use True in simp)
    next
      case big: False
      show ?thesis
      proof (cases "is_boundary content i \<or> M \<le> i - ls")
        case True
        let ?n = "cut_len content i (i - ls)"
        have "P (ls + ?n - 1 + 1) (ls + ?n)"
          by (rule "1.IH"(2) [OF inside refl big True refl fin nxt cut])
        moreover have "ls + ?n - 1 + 1 = ls + ?n"
          using cut_len_ge [of "i - ls" content i] by simp
        ultimately have step: "P (ls + ?n) (ls + ?n)"
          by simp
        from big have "T \<le> i - ls"
          by simp
        from inside this True step show ?thesis
          by (rule cut)
      next
        case False
        have "P (i + 1) ls"
          by (rule "1.IH"(3) [OF inside refl big False fin nxt cut])
        then have step: "P (Suc i) ls"
          by simp
        show ?thesis
          by (rule nxt [OF inside _ step]) (use big False in simp)
      qed
    qed
  qed
qed

lemma prose_loop_cuts:
  "prose_loop content T M i ls acc =
     (acc @ map cut_chunk (prose_cuts content T M i ls),
      last_split_after ls (prose_cuts content T M i ls))"
proof (induction i ls arbitrary: acc rule: prose_scan_induct [where content = content and T = T and M = M])
  case (finished i ls)
  then show ?case
    by (simp add: prose_loop_end prose_cuts_end last_split_after_def)
next
  case (advance i ls)
  then show ?case
    by (simp add: prose_loop_next prose_cuts_next)
next
  case (cut i ls)
  then show ?case
    by (simp add: prose_loop_cut prose_cuts_cut last_split_after_def)
qed

lemma prose_cuts_event:
  assumes "e \<in> set (prose_cuts content T M i ls)" and "ls \<le> i"
  shows "cut_start e \<le> cut_at e \<and> cut_at e < length content \<and>
         T \<le> cut_at e - cut_start e \<and>
         (is_boundary content (cut_at e) \<or> M \<le> cut_at e - cut_start e) \<and>
         cut_chunk e = substr content (cut_start e) (cut_len content (cut_at e) (cut_at e - cut_start e)) \<and>
         cut_next e = cut_start e + cut_len content (cut_at e) (cut_at e - cut_start e)"
  using assms
proof (induction i ls rule: prose_scan_induct [where content = content and T = T and M = M])
  case (finished i ls)
  then show ?case
    by (simp add: prose_cuts_end)
next
  case (advance i ls)
  then show ?case
    by (simp add: prose_cuts_next)
next
  case (cut i ls)
  from cut.prems(1) cut.hyps
  have "e = \<lparr>cut_start = ls, cut_at = i, cut_chunk = substr content ls (cut_len content i (i - ls)),
             cut_next = ls + cut_len content i (i - ls)\<rparr>
        \<or> e \<in> set (prose_cuts content T M (ls + cut_len content i (i - ls)) (ls + cut_len content i (i - ls)))"
    by (simp add: prose_cuts_cut)
  then show ?case
  proof
    assume "e = \<lparr>cut_start = ls, cut_at = i, cut_chunk = substr content ls (cut_len content i (i - ls)),
             cut_next = ls + cut_len content i (i - ls)\<rparr>"
    with cut.hyps cut.prems(2) show ?thesis
      by simp
  next
    assume "e \<in> set (prose_cuts content T M (ls + cut_len content i (i - ls)) (ls + cut_len content i (i - ls)))"
    then show ?thesis
      by (rule cut.IH) simp
  qed
qed

lemma SplitProse_cuts:
  "SplitProse content ts =
     map cut_chunk (prose_cuts content (unat ts) (unat (ts * 3)) 0 0) @
     (if last_split_after 0 (prose_cuts content (unat ts) (unat (ts * 3)) 0 0) < length content
      then [substr_from content (last_split_after 0 (prose_cuts content (unat ts) (unat (ts * 3)) 0 0))]
      else [])"
  by (simp add: SplitProse_def prose_loop_cuts Let_def)

lemma is_boundary_iff:
  "is_boundary content i \<longleftrightarrow>
     (content ! i = NL \<and> i + 1 < length content \<and> content ! (i + 1) = NL) \<or>
     ((content ! i = CHR ''.'' \<or> content ! i = CHR ''!'' \<or> content ! i = CHR ''?'') \<and>
      i + 1 < length content \<and> (content ! (i + 1) = CHR '' '' \<or> content ! (i + 1) = NL))"
  by (auto simp: is_boundary_def Let_def)

lemma paragraph_cut:
  assumes "content ! i = NL" and "i + 1 < length content" and "content ! (i + 1) = NL"
    and "ls \<le> i"
  shows "ls + cut_len content i (i - ls) = i + 2"
    and "paragraph_end_at content (i + 2)"
  using assms by (simp_all add: cut_len_def paragraph_end_at_def)

lemma boundary_cut:
  assumes "is_boundary content i" and "ls \<le> i"
  shows "sentence_end_at content (ls + cut_len content i (i - ls))
       \<or> paragraph_end_at content (ls + cut_len content i (i - ls))"
proof (cases "content ! i = NL")
  case True
  with assms(1) have "i + 1 < length content" and "content ! (i + 1) = NL"
    by (auto simp: is_boundary_iff)
  from paragraph_cut [OF True this assms(2)] show ?thesis
    by simp
next
  case False
  with assms(1) have "content ! i = CHR ''.'' \<or> content ! i = CHR ''!'' \<or> content ! i = CHR ''?''"
    and "i + 1 < length content"
    and "content ! (i + 1) = CHR '' '' \<or> content ! (i + 1) = NL"
    by (auto simp: is_boundary_iff)
  moreover from False assms(2) have "ls + cut_len content i (i - ls) = i + 1"
    by (simp add: cut_len_def)
  ultimately have "sentence_end_at content (ls + cut_len content i (i - ls))"
    by (simp add: sentence_end_at_def)
  then show ?thesis ..
qed

lemma cut_event_slice:
  assumes "e \<in> set (prose_cuts content T M 0 0)"
  shows "cut_chunk e = take (cut_next e - cut_start e) (drop (cut_start e) content)"
    and "cut_start e + length (cut_chunk e) = cut_next e"
proof -
  from prose_cuts_event [OF assms]
  have ev: "cut_start e \<le> cut_at e" "cut_at e < length content"
    "cut_chunk e = substr content (cut_start e) (cut_len content (cut_at e) (cut_at e - cut_start e))"
    "cut_next e = cut_start e + cut_len content (cut_at e) (cut_at e - cut_start e)"
    by simp_all
  from ev(3,4) show "cut_chunk e = take (cut_next e - cut_start e) (drop (cut_start e) content)"
    by (simp add: substr_def)
  from ev(1,2) have "cut_start e + cut_len content (cut_at e) (cut_at e - cut_start e) \<le> length content"
    by (intro cut_len_bound)
  with ev(3,4) show "cut_start e + length (cut_chunk e) = cut_next e"
    by (simp add: length_substr)
qed

lemma eval_cuts_hi:
  "prose_cuts ''Hi. Yo'' (unat (1 :: size_t)) (unat ((1 :: size_t) * 3)) 0 0 =
     [\<lparr>cut_start = 0, cut_at = 2, cut_chunk = ''Hi.'', cut_next = 3\<rparr>]"
  by code_simp

lemma prose_cuts_chain:
  assumes "ls \<le> i"
  shows "(prose_cuts content T M i ls \<noteq> [] \<longrightarrow> cut_start (hd (prose_cuts content T M i ls)) = ls) \<and>
         (\<forall>k. Suc k < length (prose_cuts content T M i ls) \<longrightarrow>
            cut_start (prose_cuts content T M i ls ! Suc k) = cut_next (prose_cuts content T M i ls ! k))"
  using assms
proof (induction i ls rule: prose_scan_induct [where content = content and T = T and M = M])
  case (finished i ls)
  then show ?case
    by (simp add: prose_cuts_end)
next
  case (advance i ls)
  then show ?case
    by (simp add: prose_cuts_next)
next
  case (cut i ls)
  let ?n = "cut_len content i (i - ls)"
  let ?e = "\<lparr>cut_start = ls, cut_at = i, cut_chunk = substr content ls ?n, cut_next = ls + ?n\<rparr>"
  let ?rest = "prose_cuts content T M (ls + ?n) (ls + ?n)"
  from cut.hyps have unfold: "prose_cuts content T M i ls = ?e # ?rest"
    by (simp add: prose_cuts_cut)
  from cut.IH have head: "?rest \<noteq> [] \<longrightarrow> cut_start (hd ?rest) = ls + ?n"
    and tail: "\<forall>k. Suc k < length ?rest \<longrightarrow> cut_start (?rest ! Suc k) = cut_next (?rest ! k)"
    by simp_all
  have "cut_start ((?e # ?rest) ! Suc k) = cut_next ((?e # ?rest) ! k)"
    if "Suc k < length (?e # ?rest)" for k
  proof (cases k)
    case 0
    with that have "?rest \<noteq> []"
      by auto
    with head have "cut_start (hd ?rest) = ls + ?n"
      by simp
    with 0 \<open>?rest \<noteq> []\<close> show ?thesis
      by (simp add: hd_conv_nth)
  next
    case (Suc j)
    with that tail show ?thesis
      by simp
  qed
  then show ?case
    unfolding unfold by simp
qed

lemma prose_cuts_skip_to:
  assumes "i \<le> j" and "j \<le> length content"
    and "\<forall>k. i \<le> k \<and> k < j \<longrightarrow> k - ls < T \<or> (\<not> is_boundary content k \<and> k - ls < M)"
  shows "prose_cuts content T M i ls = prose_cuts content T M j ls"
  using assms
proof (induction i rule: inc_induct)
  case base
  show ?case by simp
next
  case (step n)
  then have "prose_cuts content T M n ls = prose_cuts content T M (Suc n) ls"
    by (intro prose_cuts_next) auto
  with step show ?case
    by simp
qed

lemma first_paragraph_chunk:
  assumes "content = p1 @ [NL, NL] @ p2"
    and "unat ts < length p1" and "length p1 \<le> unat (ts * 3)"
    and "\<forall>j. unat ts \<le> j \<and> j < length p1 \<longrightarrow> \<not> is_boundary content j"
  shows "hd (SplitProse content ts) = p1 @ [NL, NL]"
proof -
  let ?T = "unat ts" and ?M = "unat (ts * 3)" and ?L = "length p1"
  from assms(1) have len: "length content = ?L + 2 + length p2"
    and nl1: "content ! ?L = NL" and nl2: "content ! (?L + 1) = NL"
    by (simp_all add: nth_append)
  have "\<forall>k. 0 \<le> k \<and> k < ?L \<longrightarrow> k - 0 < ?T \<or> (\<not> is_boundary content k \<and> k - 0 < ?M)"
    using assms(3,4) by (auto simp: not_less)
  with len have skip: "prose_cuts content ?T ?M 0 0 = prose_cuts content ?T ?M ?L 0"
    by (intro prose_cuts_skip_to) simp_all
  from len nl1 nl2 have "is_boundary content ?L"
    by (simp add: is_boundary_iff)
  moreover from len nl1 nl2 have "cut_len content ?L (?L - 0) = ?L + 2"
    by (simp add: cut_len_def)
  moreover from assms(1) have "substr content 0 (?L + 2) = p1 @ [NL, NL]"
    by (simp add: substr_def)
  ultimately have "prose_cuts content ?T ?M ?L 0 =
      \<lparr>cut_start = 0, cut_at = ?L, cut_chunk = p1 @ [NL, NL], cut_next = ?L + 2\<rparr>
      # prose_cuts content ?T ?M (?L + 2) (?L + 2)"
    using len assms(2) prose_cuts_cut [of ?L content ?T 0 ?M] by simp
  with skip show ?thesis
    by (simp add: SplitProse_cuts)
qed

lemma eval_cuts_paragraphs:
  "prose_cuts ''abc\<newline>\<newline>def'' (unat (2 :: size_t)) (unat ((2 :: size_t) * 3)) 0 0 =
     [\<lparr>cut_start = 0, cut_at = 3, cut_chunk = ''abc\<newline>\<newline>'', cut_next = 5\<rparr>]"
  by code_simp

lemma eval_prose_one_two:
  "Atomize ''One.\<newline>\<newline>Two'' ''prose'' 3 = [''One.'', ''\<newline>\<newline>Two'']"
  by code_simp

lemma concat_slice:
  assumes "concat cs = content" and "k < length cs"
  shows "cs ! k = take (length (cs ! k)) (drop (length (concat (take k cs))) content)"
proof -
  from assms(2) have "cs = take k cs @ cs ! k # drop (Suc k) cs"
    by (rule id_take_nth_drop)
  then have "concat cs = concat (take k cs) @ cs ! k @ concat (drop (Suc k) cs)"
    by (metis concat.simps(2) concat_append)
  with assms(1) show ?thesis
    by auto
qed

lemma cut_offsets:
  assumes "k < length (prose_cuts content T M 0 0)"
  shows "length (concat (take k (map cut_chunk (prose_cuts content T M 0 0))))
           = cut_start (prose_cuts content T M 0 0 ! k)"
    and "length (concat (take (Suc k) (map cut_chunk (prose_cuts content T M 0 0))))
           = cut_next (prose_cuts content T M 0 0 ! k)"
proof -
  let ?es = "prose_cuts content T M 0 0"
  from prose_cuts_chain [of 0 0 content T M]
  have head: "?es \<noteq> [] \<longrightarrow> cut_start (hd ?es) = 0"
    and chain: "\<forall>j. Suc j < length ?es \<longrightarrow> cut_start (?es ! Suc j) = cut_next (?es ! j)"
    by simp_all
  have step: "length (concat (take (Suc j) (map cut_chunk ?es)))
      = length (concat (take j (map cut_chunk ?es))) + length (cut_chunk (?es ! j))"
    if "j < length ?es" for j
    using that by (simp add: take_Suc_conv_app_nth)
  have slice: "cut_start (?es ! j) + length (cut_chunk (?es ! j)) = cut_next (?es ! j)"
    if "j < length ?es" for j
    using that cut_event_slice(2) [of "?es ! j" content T M] by simp
  have start: "j < length ?es \<Longrightarrow>
      length (concat (take j (map cut_chunk ?es))) = cut_start (?es ! j)" for j
  proof (induction j)
    case 0
    with head show ?case
      by (simp add: hd_conv_nth)
  next
    case (Suc j)
    then have "length (concat (take j (map cut_chunk ?es))) = cut_start (?es ! j)"
      and j: "j < length ?es"
      by simp_all
    with step [OF j] slice [OF j] chain Suc.prems show ?case
      by simp
  qed
  from start [OF assms]
  show "length (concat (take k (map cut_chunk ?es))) = cut_start (?es ! k)" .
  with step [OF assms] slice [OF assms]
  show "length (concat (take (Suc k) (map cut_chunk ?es))) = cut_next (?es ! k)"
    by simp
qed

lemma paragraph_scenario_rest:
  assumes "content = p1 @ [NL, NL] @ p2"
    and "hd (SplitProse content ts) = p1 @ [NL, NL]"
  shows "concat (tl (SplitProse content ts)) = p2"
proof -
  from assms(1) have "content \<noteq> []"
    by simp
  then have "SplitProse content ts \<noteq> []"
    by (rule SplitProse_nonempty)
  then have "concat (SplitProse content ts)
      = hd (SplitProse content ts) @ concat (tl (SplitProse content ts))"
    by (cases "SplitProse content ts") simp_all
  with assms SplitProse_concat [of content ts] show ?thesis
    by simp
qed

section \<open>The size read by the wrapper\<close>

lemma unat_of_negative:
  fixes w :: int64_t
  assumes "sint w < 0"
  shows "unat w = nat (2 ^ 64 + sint w)"
proof -
  have low: "- (2 ^ 63) \<le> sint w"
    using sint_greater_eq [of w] by simp
  have "uint w = sint w mod 2 ^ 64"
    by (simp add: uint_sint take_bit_eq_mod)
  also have "\<dots> = (sint w + 2 ^ 64) mod 2 ^ 64"
    by simp
  also have "\<dots> = sint w + 2 ^ 64"
    using assms low by (intro mod_pos_pos_trivial) simp_all
  finally have "uint w = 2 ^ 64 + sint w"
    by (simp add: add.commute)
  then show ?thesis
    by (simp add: unat_eq_nat_uint)
qed

lemma unat_of_zero:
  fixes w :: int64_t
  assumes "sint w = 0"
  shows "unat w = 0"
proof -
  from assms have "w = 0"
    by (simp add: signed_eq_0_iff)
  then show ?thesis
    by simp
qed

lemma eval_prose_ab_zero: "Atomize ''ab'' ''prose'' 0 = [''a'', ''b'']"
  by code_simp

lemma eval_code_ab_zero: "Atomize ''ab'' ''code'' 0 = [[], []]"
  by code_simp

section \<open>The claims\<close>

text \<open>
  C1 (coverage). Concatenating the chunks of \<open>Atomize\<close> should reproduce the document. Under
  the code strategy the forced split of the hard-limit block emits \<^verbatim>\<open>current_len\<close> bytes,
  which stops before the byte at \<open>i\<close>, and then moves \<^verbatim>\<open>last_split\<close> to \<open>i + 1\<close>: the byte at
  \<open>i\<close> is in no chunk. On the three bytes \<open>abc\<close> with target size 1 the only chunk is
  \<open>ab\<close>. (Under the prose strategy the property holds: lemma \<open>SplitProse_concat\<close>.)
\<close>

theorem forced_split_drops_byte:
  "Atomize ''abc'' ''code'' 1 = [''ab''] \<and> concat (Atomize ''abc'' ''code'' 1) \<noteq> ''abc''"
  by (simp add: eval_code_abc)

text \<open>
  C2 (hard ceiling), as stated: no chunk is longer than \<open>targetSize * 2\<close> under the code
  strategy, or than \<open>targetSize * 3\<close> under the prose strategy. It fails: a cut includes the
  byte that triggered it, so a chunk cut when the run has reached the limit is one byte
  longer, and two bytes longer when the prose splitter also takes a second newline.
\<close>

theorem chunk_exceeds_hard_ceiling:
  "Atomize ''ab\<newline>'' ''code'' 1 = [''ab\<newline>''] \<and> \<not> length ''ab\<newline>'' \<le> unat (1 :: size_t) * 2
   \<and> Atomize ''abc\<newline>\<newline>'' ''prose'' 1 = [''abc\<newline>\<newline>'']
   \<and> \<not> length ''abc\<newline>\<newline>'' \<le> unat (1 :: size_t) * 3"
  by (simp add: eval_code_ab_nl eval_prose_abc_nl_nl)

text \<open>
  C2, amended: every chunk returned by \<open>Atomize\<close> has length at most \<open>targetSize * 2 + 1\<close>
  under the code strategy and at most \<open>targetSize * 3 + 2\<close> under any other strategy.
\<close>

theorem chunk_length_within_limit_plus_cut:
  "a \<in> set (Atomize content strategy ts) \<Longrightarrow>
   length a \<le> (if strategy = ''code'' then unat ts * 2 + 1 else unat ts * 3 + 2)"
  by (rule Atomize_chunks_bounded)

theorem chunk_length_within_limit_plus_cut_witness:
  "''ab\<newline>'' \<in> set (Atomize ''ab\<newline>'' ''code'' 1) \<and> length ''ab\<newline>'' \<le> unat (1 :: size_t) * 2 + 1"
  using chunk_length_within_limit_plus_cut [of "''ab\<newline>''" "''ab\<newline>''" "''code''" 1]
  by (simp add: eval_code_ab_nl)

text \<open>
  C3 (non-degeneracy). For every strategy label and target size, \<open>Atomize\<close> returns no chunk
  on the empty document and at least one chunk on a non-empty document.
\<close>

theorem empty_input_no_chunks_nonempty_some:
  "length (Atomize [] strategy ts) = 0 \<and>
   (content \<noteq> [] \<longrightarrow> 1 \<le> length (Atomize content strategy ts))"
proof -
  have "Atomize [] strategy ts = []"
    by (simp add: Atomize_def SplitCode_Nil SplitProse_Nil)
  moreover have "Atomize content strategy ts \<noteq> []" if "content \<noteq> []"
    using that by (simp add: Atomize_def SplitCode_nonempty SplitProse_nonempty)
  ultimately show ?thesis
    by (cases "Atomize content strategy ts") auto
qed

theorem empty_input_no_chunks_nonempty_some_witness:
  "length (Atomize [] ''code'' 1) = 0 \<and> ''a'' \<noteq> [] \<and> 1 \<le> length (Atomize ''a'' ''prose'' 1)"
  using empty_input_no_chunks_nonempty_some [of "''code''" 1 "''a''"]
    empty_input_no_chunks_nonempty_some [of "''prose''" 1 "''a''"]
  by simp

text \<open>
  C4 (soft split). Let \<open>st\<close> and \<open>st'\<close> be the states of the code splitter's loop before and
  after iteration \<open>i\<close>, and the run \<open>i - last_split\<close>. When the byte at \<open>i\<close> is a newline, the
  depth counter is 0 and the run is greater than \<open>MIN_SIZE = targetSize / 2\<close>, the iteration
  appends exactly one chunk, the bytes from \<^verbatim>\<open>last_split\<close> through \<open>i\<close>, ending with that
  newline, and \<^verbatim>\<open>last_split\<close> becomes \<open>i + 1\<close>: the hard-limit block is not run, whatever the
  run is. Below the hard limit an iteration emits a chunk in that case only. The counter is
  the bracket depth of the bytes scanned, counted with a floor at zero (on a document of
  fewer than \<open>2 ^ 31\<close> bytes, where the C \<^verbatim>\<open>int\<close> cannot overflow).
\<close>

theorem soft_split_at_top_level_newline:
  fixes content :: string and ts :: size_t and i :: nat
  defines "MIN_SIZE \<equiv> unat (ts div 2)" and "MAX_SIZE \<equiv> unat (ts * 2)"
  defines "st \<equiv> code_scan content MIN_SIZE MAX_SIZE i"
    and "st' \<equiv> code_scan content MIN_SIZE MAX_SIZE (Suc i)"
  assumes "i < length content"
  shows "(content ! i = NL \<and> depth st' = 0 \<and> MIN_SIZE < i - last_split st \<longrightarrow>
            atoms st' = atoms st @ [take (i - last_split st + 1) (drop (last_split st) content)] \<and>
            length (last (atoms st')) = i - last_split st + 1 \<and>
            last (last (atoms st')) = NL \<and>
            last_split st' = i + 1) \<and>
         (i - last_split st < MAX_SIZE \<longrightarrow>
            (atoms st' \<noteq> atoms st) = (content ! i = NL \<and> depth st' = 0 \<and> MIN_SIZE < i - last_split st)) \<and>
         (length content < 2 ^ 31 \<longrightarrow>
            sint (depth st') = int (bracket_depth (take (Suc i) content)))"
proof -
  have body: "st' = code_body content MIN_SIZE MAX_SIZE i st"
    by (simp add: st_def st'_def)
  then have d: "depth st' = depth_step (content ! i) (depth st)"
    by (simp add: code_body_depth)
  have ls: "last_split st \<le> i"
    unfolding st_def by (rule code_scan_last_split_le)
  have soft: "atoms st' = atoms st @ [take (i - last_split st + 1) (drop (last_split st) content)] \<and>
      length (last (atoms st')) = i - last_split st + 1 \<and> last (last (atoms st')) = NL \<and>
      last_split st' = i + 1"
    if guard: "content ! i = NL" "depth st' = 0" "MIN_SIZE < i - last_split st"
  proof -
    from guard d have "depth_step (content ! i) (depth st) = 0"
      by simp
    from code_body_soft [OF guard(1) this guard(3), of MAX_SIZE] body
    have st': "st' =
       \<lparr>atoms = atoms st @ [substr content (last_split st) (i - last_split st + 1)],
        depth = 0, last_split = i + 1\<rparr>"
      by simp
    from substr_slice [OF ls assms(5)] guard(1)
    have "length (substr content (last_split st) (i - last_split st + 1)) = i - last_split st + 1"
      and "last (substr content (last_split st) (i - last_split st + 1)) = NL"
      by simp_all
    with st' show ?thesis
      by (simp add: substr_def)
  qed
  have only: "(atoms st' \<noteq> atoms st) = (content ! i = NL \<and> depth st' = 0 \<and> MIN_SIZE < i - last_split st)"
    if below: "i - last_split st < MAX_SIZE"
  proof (cases "content ! i = NL \<and> depth st' = 0 \<and> MIN_SIZE < i - last_split st")
    case True
    with soft have "atoms st' = atoms st @ [take (i - last_split st + 1) (drop (last_split st) content)]"
      by simp
    then have "atoms st' \<noteq> atoms st"
      by simp
    with True show ?thesis
      by simp
  next
    case False
    with d have "\<not> (content ! i = NL \<and> depth_step (content ! i) (depth st) = 0
        \<and> MIN_SIZE < i - last_split st)"
      by simp
    from code_body_quiet [OF this below] body have "atoms st' = atoms st"
      by simp
    with False show ?thesis
      by simp
  qed
  have "sint (depth st') = int (bracket_depth (take (Suc i) content))" if "length content < 2 ^ 31"
    unfolding st'_def using that assms(5) by (intro code_scan_depth) simp_all
  with soft only show ?thesis
    by blast
qed

theorem soft_split_at_top_level_newline_witness:
  "2 < length ''{}\<newline>'' \<and> ''{}\<newline>'' ! 2 = NL \<and>
   depth (code_scan ''{}\<newline>'' (unat ((1 :: size_t) div 2)) (unat ((1 :: size_t) * 2)) (Suc 2)) = 0 \<and>
   unat ((1 :: size_t) div 2)
     < 2 - last_split (code_scan ''{}\<newline>'' (unat ((1 :: size_t) div 2)) (unat ((1 :: size_t) * 2)) 2) \<and>
   unat ((1 :: size_t) * 2)
     \<le> 2 - last_split (code_scan ''{}\<newline>'' (unat ((1 :: size_t) div 2)) (unat ((1 :: size_t) * 2)) 2) \<and>
   atoms (code_scan ''{}\<newline>'' (unat ((1 :: size_t) div 2)) (unat ((1 :: size_t) * 2)) (Suc 2))
     = [''{}\<newline>''] \<and>
   last_split (code_scan ''{}\<newline>'' (unat ((1 :: size_t) div 2)) (unat ((1 :: size_t) * 2)) (Suc 2)) = 2 + 1 \<and>
   2 - last_split (code_scan ''{}\<newline>'' (unat ((2 :: size_t) div 2)) (unat ((2 :: size_t) * 2)) 2)
     < unat ((2 :: size_t) * 2) \<and>
   atoms (code_scan ''{}\<newline>'' (unat ((2 :: size_t) div 2)) (unat ((2 :: size_t) * 2)) (Suc 2))
     \<noteq> atoms (code_scan ''{}\<newline>'' (unat ((2 :: size_t) div 2)) (unat ((2 :: size_t) * 2)) 2) \<and>
   depth (code_scan ''{}\<newline>'' (unat ((2 :: size_t) div 2)) (unat ((2 :: size_t) * 2)) (Suc 2)) = 0 \<and>
   unat ((2 :: size_t) div 2)
     < 2 - last_split (code_scan ''{}\<newline>'' (unat ((2 :: size_t) div 2)) (unat ((2 :: size_t) * 2)) 2) \<and>
   length ''{}\<newline>'' < 2 ^ 31 \<and> bracket_depth (take (Suc 2) ''{}\<newline>'') = 0"
proof -
  have len: "2 < length ''{}\<newline>''"
    by simp
  note at_limit = soft_split_at_top_level_newline [OF len, of 1]
    and below_limit = soft_split_at_top_level_newline [OF len, of 2]
  have facts1: "''{}\<newline>'' ! 2 = NL" "unat ((1 :: size_t) div 2) < 2 - 0" "unat ((1 :: size_t) * 2) \<le> 2 - 0"
    "(2 :: nat) - 0 < unat ((2 :: size_t) * 2)" "unat ((2 :: size_t) div 2) < 2 - 0"
    "length ''{}\<newline>'' < 2 ^ 31"
    by (simp_all add: unat_div)
  from at_limit facts1 have a: "atoms (code_scan ''{}\<newline>'' (unat ((1 :: size_t) div 2)) (unat ((1 :: size_t) * 2)) (Suc 2))
     = [''{}\<newline>'']"
    "last_split (code_scan ''{}\<newline>'' (unat ((1 :: size_t) div 2)) (unat ((1 :: size_t) * 2)) (Suc 2)) = 2 + 1"
    unfolding eval_scan_before eval_scan_after by simp_all
  from below_limit facts1 have b: "depth (code_scan ''{}\<newline>'' (unat ((2 :: size_t) div 2)) (unat ((2 :: size_t) * 2)) (Suc 2)) = 0"
    "bracket_depth (take (Suc 2) ''{}\<newline>'') = 0"
    unfolding eval_scan_before eval_scan_after by simp_all
  from a b facts1 len show ?thesis
    unfolding eval_scan_before eval_scan_after by simp
qed

text \<open>
  C5 (prose boundary). The chunks of the prose splitter are those of its cuts, in order,
  followed by the remainder if any. Every cut whose run is below \<open>MAX_SIZE = targetSize * 3\<close>
  emits the bytes from \<^verbatim>\<open>last_split\<close> up to an offset that is immediately after a sentence
  terminator followed by a space or newline, or immediately after two newlines.
\<close>

theorem prose_cut_ends_after_boundary:
  fixes content :: string and ts :: size_t
  defines "es \<equiv> prose_cuts content (unat ts) (unat (ts * 3)) 0 0"
  assumes "e \<in> set es" and "cut_at e - cut_start e < unat (ts * 3)"
  shows "SplitProse content ts =
           map cut_chunk es @
           (if last_split_after 0 es < length content
            then [substr_from content (last_split_after 0 es)] else []) \<and>
         cut_chunk e = take (cut_next e - cut_start e) (drop (cut_start e) content) \<and>
         cut_start e + length (cut_chunk e) = cut_next e \<and>
         (sentence_end_at content (cut_next e) \<or> paragraph_end_at content (cut_next e))"
proof -
  from assms(2) have e: "e \<in> set (prose_cuts content (unat ts) (unat (ts * 3)) 0 0)"
    by (simp add: es_def)
  from prose_cuts_event [OF e] assms(3)
  have "cut_start e \<le> cut_at e" and "is_boundary content (cut_at e)"
    and "cut_next e = cut_start e + cut_len content (cut_at e) (cut_at e - cut_start e)"
    by simp_all
  then have "sentence_end_at content (cut_next e) \<or> paragraph_end_at content (cut_next e)"
    using boundary_cut [of content "cut_at e" "cut_start e"] by simp
  with cut_event_slice [OF e] show ?thesis
    unfolding es_def by (simp add: SplitProse_cuts)
qed

theorem prose_cut_ends_after_boundary_witness:
  "\<lparr>cut_start = 0, cut_at = 2, cut_chunk = ''Hi.'', cut_next = 3\<rparr>
     \<in> set (prose_cuts ''Hi. Yo'' (unat (1 :: size_t)) (unat ((1 :: size_t) * 3)) 0 0) \<and>
   (2 :: nat) - 0 < unat ((1 :: size_t) * 3) \<and>
   SplitProse ''Hi. Yo'' 1 = [''Hi.'', '' Yo''] \<and>
   (sentence_end_at ''Hi. Yo'' 3 \<or> paragraph_end_at ''Hi. Yo'' 3)"
proof -
  have ev: "\<lparr>cut_start = 0, cut_at = 2, cut_chunk = ''Hi.'', cut_next = 3\<rparr>
     \<in> set (prose_cuts ''Hi. Yo'' (unat (1 :: size_t)) (unat ((1 :: size_t) * 3)) 0 0)"
    unfolding eval_cuts_hi by simp
  have run: "cut_at \<lparr>cut_start = 0, cut_at = 2, cut_chunk = ''Hi.'', cut_next = 3\<rparr>
      - cut_start \<lparr>cut_start = 0, cut_at = 2, cut_chunk = ''Hi.'', cut_next = 3\<rparr>
      < unat ((1 :: size_t) * 3)"
    by simp
  from prose_cut_ends_after_boundary [OF ev run]
  have "SplitProse ''Hi. Yo'' 1 = [''Hi.'', '' Yo'']"
    and "sentence_end_at ''Hi. Yo'' 3 \<or> paragraph_end_at ''Hi. Yo'' 3"
    unfolding eval_cuts_hi by (simp_all add: last_split_after_def substr_from_def)
  with ev show ?thesis
    by simp
qed

text \<open>
  C6 (depth floor). On a document of fewer than \<open>2 ^ 31\<close> bytes, before and after every
  iteration of the code splitter's loop the depth counter, read as a signed integer, is not
  negative; it is the bracket depth of the bytes scanned so far, counted with a floor at
  zero. (From \<open>2 ^ 31\<close> opening braces on, \<^verbatim>\<open>depth++\<close> overflows the C \<^verbatim>\<open>int\<close>.)
\<close>

theorem depth_counter_never_negative:
  assumes "length content < 2 ^ 31" and "n \<le> length content"
  shows "0 \<le> sint (depth (code_scan content MIN_SIZE MAX_SIZE n)) \<and>
         sint (depth (code_scan content MIN_SIZE MAX_SIZE n)) = int (bracket_depth (take n content))"
  using code_scan_depth [OF assms] by simp

theorem depth_counter_never_negative_witness:
  "length ''}'' < 2 ^ 31 \<and> 1 \<le> length ''}'' \<and> 0 \<le> sint (depth (code_scan ''}'' 0 2 1)) \<and>
   bracket_depth (take 1 ''}'') = 0"
  using depth_counter_never_negative [of "''}''" 1 0 2]
  by (simp add: bracket_depth_def)

text \<open>
  C7 (paragraph cut), as stated: for two paragraphs separated by a blank line and a target
  size below the length of the first, the first chunk ends after both newlines. It fails
  when the first paragraph ends with a sentence terminator: the terminator followed by the
  first newline is a sentence boundary, and the cut is made there.
\<close>

theorem sentence_end_precedes_paragraph_break:
  "Atomize ''One.\<newline>\<newline>Two'' ''prose'' 3 = [''One.'', ''\<newline>\<newline>Two''] \<and>
   unat (3 :: size_t) < length ''One.'' \<and>
   hd (Atomize ''One.\<newline>\<newline>Two'' ''prose'' 3) \<noteq> ''One.\<newline>\<newline>''"
  by (simp add: eval_prose_one_two)

text \<open>
  C7, amended: the chunks of the prose splitter are those of its cuts followed by the
  remainder. A cut triggered at a newline that is followed by a newline has length
  \<open>run + 2\<close>: its chunk ends immediately after both newlines, and the next chunk, whether
  of the next cut or the remainder, begins after the second newline; when no chunk follows,
  the document ends there. For a document \<open>p1\<close>, two newlines, \<open>p2\<close>, with a target size
  below the length of \<open>p1\<close>, the length of \<open>p1\<close> at most \<open>MAX_SIZE\<close> and no boundary detected in
  \<open>p1\<close> from the offset \<open>targetSize\<close> on, the first chunk is \<open>p1\<close> with both newlines and the
  chunks after it are \<open>p2\<close>.
\<close>

theorem paragraph_cut_takes_both_newlines:
  fixes content :: string and ts :: size_t
  defines "es \<equiv> prose_cuts content (unat ts) (unat (ts * 3)) 0 0"
    and "cs \<equiv> SplitProse content ts"
  shows "cs = map cut_chunk es @
               (if last_split_after 0 es < length content
                then [substr_from content (last_split_after 0 es)] else []) \<and>
         (k < length es \<longrightarrow> content ! cut_at (es ! k) = NL \<longrightarrow>
            cut_at (es ! k) + 1 < length content \<longrightarrow> content ! (cut_at (es ! k) + 1) = NL \<longrightarrow>
            cs ! k = cut_chunk (es ! k) \<and>
            length (concat (take k cs)) = cut_start (es ! k) \<and>
            length (cs ! k) = (cut_at (es ! k) - cut_start (es ! k)) + 1 + 1 \<and>
            cs ! k = take (cut_at (es ! k) + 2 - cut_start (es ! k)) (drop (cut_start (es ! k)) content) \<and>
            length (concat (take (Suc k) cs)) = cut_at (es ! k) + 2 \<and>
            paragraph_end_at content (cut_at (es ! k) + 2) \<and>
            (Suc k < length cs \<longrightarrow>
               cs ! Suc k \<noteq> [] \<and>
               cs ! Suc k = take (length (cs ! Suc k)) (drop (cut_at (es ! k) + 2) content)) \<and>
            (Suc k = length cs \<longrightarrow> cut_at (es ! k) + 2 = length content)) \<and>
         (content = p1 @ [NL, NL] @ p2 \<longrightarrow> unat ts < length p1 \<longrightarrow> length p1 \<le> unat (ts * 3) \<longrightarrow>
            (\<forall>j. unat ts \<le> j \<and> j < length p1 \<longrightarrow> \<not> is_boundary content j) \<longrightarrow>
            hd cs = p1 @ [NL, NL] \<and> concat (tl cs) = p2)"
proof -
  have link: "cs = map cut_chunk es @
               (if last_split_after 0 es < length content
                then [substr_from content (last_split_after 0 es)] else [])"
    unfolding cs_def es_def by (rule SplitProse_cuts)
  have cover: "concat cs = content"
    unfolding cs_def by (rule SplitProse_concat)
  have cut: "cs ! k = cut_chunk (es ! k) \<and>
      length (concat (take k cs)) = cut_start (es ! k) \<and>
      length (cs ! k) = (cut_at (es ! k) - cut_start (es ! k)) + 1 + 1 \<and>
      cs ! k = take (cut_at (es ! k) + 2 - cut_start (es ! k)) (drop (cut_start (es ! k)) content) \<and>
      length (concat (take (Suc k) cs)) = cut_at (es ! k) + 2 \<and>
      paragraph_end_at content (cut_at (es ! k) + 2) \<and>
      (Suc k < length cs \<longrightarrow>
         cs ! Suc k \<noteq> [] \<and>
         cs ! Suc k = take (length (cs ! Suc k)) (drop (cut_at (es ! k) + 2) content)) \<and>
      (Suc k = length cs \<longrightarrow> cut_at (es ! k) + 2 = length content)"
    if k: "k < length es"
      and nl: "content ! cut_at (es ! k) = NL" "cut_at (es ! k) + 1 < length content"
        "content ! (cut_at (es ! k) + 1) = NL"
  proof -
    let ?e = "es ! k"
    from k have e: "?e \<in> set (prose_cuts content (unat ts) (unat (ts * 3)) 0 0)"
      by (simp add: es_def)
    from prose_cuts_event [OF e] have start: "cut_start ?e \<le> cut_at ?e"
      and next_: "cut_next ?e = cut_start ?e + cut_len content (cut_at ?e) (cut_at ?e - cut_start ?e)"
      by simp_all
    from paragraph_cut [OF nl start] next_
    have nxt: "cut_next ?e = cut_at ?e + 2" and par: "paragraph_end_at content (cut_at ?e + 2)"
      by simp_all
    from cut_event_slice [OF e] nxt start
    have chunk: "cut_chunk ?e = take (cut_at ?e + 2 - cut_start ?e) (drop (cut_start ?e) content)"
      and total: "cut_start ?e + length (cut_chunk ?e) = cut_at ?e + 2"
      by simp_all
    from total start have len: "length (cut_chunk ?e) = (cut_at ?e - cut_start ?e) + 1 + 1"
      by simp
    from k link have nth: "cs ! k = cut_chunk ?e"
      by (simp add: nth_append)
    from k link have "take k cs = take k (map cut_chunk es)"
      and "take (Suc k) cs = take (Suc k) (map cut_chunk es)"
      by simp_all
    with cut_offsets [of k content "unat ts" "unat (ts * 3)"] k nxt
    have before: "length (concat (take k cs)) = cut_start ?e"
      and after: "length (concat (take (Suc k) cs)) = cut_at ?e + 2"
      by (simp_all add: es_def)
    have following: "cs ! Suc k \<noteq> [] \<and>
        cs ! Suc k = take (length (cs ! Suc k)) (drop (cut_at ?e + 2) content)"
      if "Suc k < length cs"
    proof -
      from that have "cs ! Suc k \<in> set (SplitProse content ts)"
        by (simp add: cs_def)
      then have "cs ! Suc k \<noteq> []"
        by (rule SplitProse_chunks(1))
      moreover from concat_slice [OF cover that] after
      have "cs ! Suc k = take (length (cs ! Suc k)) (drop (cut_at ?e + 2) content)"
        by simp
      ultimately show ?thesis ..
    qed
    have "cut_at ?e + 2 = length content" if "Suc k = length cs"
    proof -
      from that have "take (Suc k) cs = cs"
        by simp
      with after cover show ?thesis
        by simp
    qed
    with nth before len chunk after par following show ?thesis
      by simp
  qed
  have scenario: "hd cs = p1 @ [NL, NL] \<and> concat (tl cs) = p2"
    if "content = p1 @ [NL, NL] @ p2" "unat ts < length p1" "length p1 \<le> unat (ts * 3)"
      "\<forall>j. unat ts \<le> j \<and> j < length p1 \<longrightarrow> \<not> is_boundary content j"
  proof -
    from that have "hd (SplitProse content ts) = p1 @ [NL, NL]"
      by (rule first_paragraph_chunk)
    with that(1) show ?thesis
      unfolding cs_def by (simp add: paragraph_scenario_rest)
  qed
  from link cut scenario show ?thesis
    by blast
qed

theorem paragraph_cut_takes_both_newlines_witness:
  "0 < length (prose_cuts ''abc\<newline>\<newline>def'' (unat (2 :: size_t)) (unat ((2 :: size_t) * 3)) 0 0) \<and>
   cut_at (prose_cuts ''abc\<newline>\<newline>def'' (unat (2 :: size_t)) (unat ((2 :: size_t) * 3)) 0 0 ! 0) = 3 \<and>
   ''abc\<newline>\<newline>def'' ! 3 = NL \<and> 3 + 1 < length ''abc\<newline>\<newline>def'' \<and> ''abc\<newline>\<newline>def'' ! (3 + 1) = NL \<and>
   SplitProse ''abc\<newline>\<newline>def'' 2 = [''abc\<newline>\<newline>'', ''def''] \<and>
   Suc 0 < length (SplitProse ''abc\<newline>\<newline>def'' 2) \<and>
   SplitProse ''abc\<newline>\<newline>def'' 2 ! Suc 0 = take (length ''def'') (drop (3 + 2) ''abc\<newline>\<newline>def'') \<and>
   ''abc\<newline>\<newline>def'' = ''abc'' @ [NL, NL] @ ''def'' \<and>
   unat (2 :: size_t) < length ''abc'' \<and> length ''abc'' \<le> unat ((2 :: size_t) * 3) \<and>
   \<not> is_boundary ''abc\<newline>\<newline>def'' 2 \<and>
   hd (SplitProse ''abc\<newline>\<newline>def'' 2) = ''abc\<newline>\<newline>'' \<and>
   concat (tl (SplitProse ''abc\<newline>\<newline>def'' 2)) = ''def''"
proof -
  note inst = paragraph_cut_takes_both_newlines
    [of "''abc\<newline>\<newline>def''" 2 0 "''abc''" "''def''", unfolded eval_cuts_paragraphs]
  have split: "SplitProse ''abc\<newline>\<newline>def'' 2 = [''abc\<newline>\<newline>'', ''def'']"
    using inst [THEN conjunct1] by (simp add: last_split_after_def substr_from_def)
  have nb: "\<not> is_boundary ''abc\<newline>\<newline>def'' 2"
    by (simp add: is_boundary_iff)
  have "\<forall>j. unat (2 :: size_t) \<le> j \<and> j < length ''abc'' \<longrightarrow> \<not> is_boundary ''abc\<newline>\<newline>def'' j"
  proof (intro allI impI)
    fix j :: nat
    assume "unat (2 :: size_t) \<le> j \<and> j < length ''abc''"
    then have "j = 2"
      by simp
    with nb show "\<not> is_boundary ''abc\<newline>\<newline>def'' j"
      by simp
  qed
  with inst [THEN conjunct2, THEN conjunct2] have scenario: "hd (SplitProse ''abc\<newline>\<newline>def'' 2) = ''abc\<newline>\<newline>''"
    "concat (tl (SplitProse ''abc\<newline>\<newline>def'' 2)) = ''def''"
    by simp_all
  from inst [THEN conjunct2, THEN conjunct1] have "SplitProse ''abc\<newline>\<newline>def'' 2 ! Suc 0
      = take (length (SplitProse ''abc\<newline>\<newline>def'' 2 ! Suc 0)) (drop (3 + 2) ''abc\<newline>\<newline>def'')"
    by (simp add: split)
  then have following: "SplitProse ''abc\<newline>\<newline>def'' 2 ! Suc 0
      = take (length ''def'') (drop (3 + 2) ''abc\<newline>\<newline>def'')"
    by (simp add: split)
  from split scenario following nb show ?thesis
    unfolding eval_cuts_paragraphs by simp
qed

text \<open>
  C8 (rejecting a non-positive target size), as stated: such a call is rejected with an
  invalid-argument condition instead of proceeding with degenerate thresholds. It fails:
  \<^verbatim>\<open>Atomize\<close> has no error path and runs with the size 0, and the wrapper throws for a
  non-string document only. (On the ASCII strings and the number 0 of the last conjunct the
  N-API conversions change nothing, which the identity stands for.)
\<close>

theorem nonpositive_size_not_rejected:
  "Atomize ''ab'' ''prose'' 0 = [''a'', ''b''] \<and>
   Atomize ''ab'' ''code'' 0 = [[], []] \<and>
   AtomizeWrapped id id id [JSString ''ab'', JSString ''prose'', JSNumber 0] = Inr [''a'', ''b'']"
  by (simp add: AtomizeWrapped_def eval_prose_ab_zero eval_code_ab_zero)

text \<open>
  C8, amended: a call with a non-positive target size is not rejected. Whatever the N-API
  conversions do, the wrapper takes the \<^verbatim>\<open>int64_t\<close> that \<^verbatim>\<open>Int64Value()\<close> reads from the
  number as the unsigned size, where 0 stays 0 and a negative \<open>n\<close> becomes \<open>2 ^ 64 + n\<close>, and
  returns the chunks that \<^verbatim>\<open>Atomize\<close> computes from that size, each converted by
  \<^verbatim>\<open>Napi::String::New\<close>.
\<close>

theorem nonpositive_size_converted:
  "AtomizeWrapped Utf8Value Int64Value String_New [JSString content, JSString strategy, JSNumber n]
     = Inr (map String_New (Atomize (Utf8Value content) (Utf8Value strategy) (Int64Value n))) \<and>
   (sint (Int64Value n) \<le> 0 \<longrightarrow>
      unat (Int64Value n) = (if sint (Int64Value n) = 0 then 0 else nat (2 ^ 64 + sint (Int64Value n))))"
  by (simp add: AtomizeWrapped_def unat_of_negative unat_of_zero)

theorem nonpositive_size_converted_witness:
  "sint (id (- 1 :: int64_t)) \<le> 0 \<and>
   unat (id (- 1 :: int64_t)) = nat (2 ^ 64 + sint (id (- 1 :: int64_t))) \<and>
   AtomizeWrapped id id id [JSString ''ab'', JSString ''code'', JSNumber (- 1)]
     = Inr (map id (Atomize (id ''ab'') (id ''code'') (id (- 1))))"
  using nonpositive_size_converted [of id id id "''ab''" "''code''" "- 1"]
  by simp

text \<open>
  C9 (dispatch). The label \<open>code\<close> runs the code splitter and every other label runs the
  prose splitter; the wrapper supplies the label \<open>prose\<close> and the size 512 when they are
  absent, and no label makes the wrapper throw.
\<close>

theorem strategy_dispatch:
  "Atomize content ''code'' ts = SplitCode content ts \<and>
   (strategy \<noteq> ''code'' \<longrightarrow> Atomize content strategy ts = SplitProse content ts) \<and>
   AtomizeWrapped Utf8Value Int64Value String_New [JSString s]
     = Inr (map String_New (SplitProse (Utf8Value s) 512)) \<and>
   AtomizeWrapped Utf8Value Int64Value String_New [JSString s, JSString l]
     = Inr (map String_New (Atomize (Utf8Value s) (Utf8Value l) 512))"
  by (simp add: Atomize_def AtomizeWrapped_def)

theorem strategy_dispatch_witness:
  "''Code'' \<noteq> ''code'' \<and> Atomize ''x'' ''Code'' 7 = SplitProse ''x'' 7 \<and>
   Atomize ''x'' ''code'' 7 = SplitCode ''x'' 7 \<and>
   AtomizeWrapped id id id [JSString ''x'' :: (string, int64_t) js_value]
     = Inr (map id (SplitProse (id ''x'') 512))"
  using strategy_dispatch [where content = "''x''" and ts = 7 and strategy = "''Code''"
      and Utf8Value = id and Int64Value = "id :: int64_t \<Rightarrow> int64_t" and String_New = id
      and s = "''x''" and l = "''Code''"]
  by simp

text \<open>
  C10 (no empty chunk), as stated: for every target size from 1 on, no chunk is empty. It
  fails at the target size \<open>2 ^ 63\<close> under the code strategy: \<^verbatim>\<open>maxChunkSize * 2\<close> wraps to 0
  in 64-bit arithmetic, the hard-limit block runs at a run of length 0 and its forced split
  emits the empty string.
\<close>

theorem empty_chunk_at_wrapped_limit:
  "Atomize ''a'' ''code'' (2 ^ 63) = [[]]"
  by (rule eval_code_a_wrapped)

text \<open>
  C10, amended: for every target size from 1 on, other than \<open>2 ^ 63\<close> under the code
  strategy, every chunk returned by \<open>Atomize\<close> has at least one byte.
\<close>

theorem chunks_nonempty_unless_limit_wraps:
  assumes "1 \<le> ts" and "strategy = ''code'' \<longrightarrow> ts \<noteq> 2 ^ 63"
    and "a \<in> set (Atomize content strategy ts)"
  shows "1 \<le> length a"
proof (cases "strategy = ''code''")
  case True
  from assms(1) have "ts \<noteq> 0"
    by auto
  with True assms(2) have "ts * 2 \<noteq> 0"
    by (simp add: double_eq_0_iff)
  then have "0 < unat (ts * 2)"
    by (simp add: unat_gt_0)
  moreover from True assms(3) have "a \<in> set (SplitCode content ts)"
    by (simp add: Atomize_def)
  ultimately have "a \<noteq> []"
    by (intro SplitCode_chunks(2))
  then show ?thesis
    by (cases a) simp_all
next
  case False
  with assms(3) have "a \<in> set (SplitProse content ts)"
    by (simp add: Atomize_def)
  then have "a \<noteq> []"
    by (rule SplitProse_chunks(1))
  then show ?thesis
    by (cases a) simp_all
qed

theorem chunks_nonempty_unless_limit_wraps_witness:
  "(1 :: size_t) \<le> 1 \<and> (1 :: size_t) \<noteq> 2 ^ 63
   \<and> ''ab'' \<in> set (Atomize ''abc'' ''code'' 1) \<and> 1 \<le> length ''ab''"
  using chunks_nonempty_unless_limit_wraps [of 1 "''code''" "''ab''" "''abc''"]
  by (simp add: eval_code_abc)

end
